theory Spec2Isabelle
  imports Complex_Main
begin

section \<open>Scores: the floats of the search, with both infinities\<close>

text \<open>
  \<^verbatim>\<open>bot.py\<close> scores positions with Python numbers. \<^verbatim>\<open>evaluate_board\<close> adds
  integers and the fraction \<^verbatim>\<open>0.5\<close>, so every evaluation is a multiple of one half of
  small magnitude, which binary floating point represents exactly: such a value
  is a \<^typ>\<open>rat\<close> here. \<^verbatim>\<open>minimax\<close> also uses \<^verbatim>\<open>float('-inf')\<close> and
  \<^verbatim>\<open>float('inf')\<close>; they are the two extra constructors of \<open>score\<close>.
\<close>

datatype score = NegInf | Fin rat | PosInf

instantiation score :: linorder
begin

fun less_eq_score :: "score \<Rightarrow> score \<Rightarrow> bool" where
  "less_eq_score NegInf _ = True"
| "less_eq_score _ PosInf = True"
| "less_eq_score (Fin x) (Fin y) = (x \<le> y)"
| "less_eq_score _ _ = False"

definition less_score :: "score \<Rightarrow> score \<Rightarrow> bool" where
  "less_score a b = (a \<le> b \<and> \<not> b \<le> a)"

instance
proof
  fix x y z :: score
  show "(x < y) = (x \<le> y \<and> \<not> y \<le> x)"
    by (simp add: less_score_def)
  show "x \<le> x"
    by (cases x) simp_all
  show "x \<le> y \<Longrightarrow> y \<le> z \<Longrightarrow> x \<le> z"
    by (cases x; cases y; cases z) simp_all
  show "x \<le> y \<Longrightarrow> y \<le> x \<Longrightarrow> x = y"
    by (cases x; cases y) simp_all
  show "x \<le> y \<or> y \<le> x"
    by (cases x; cases y) auto
qed

end

section \<open>The rules engine: what \<^verbatim>\<open>bot.py\<close> asks of \<^verbatim>\<open>chess.Board\<close>\<close>

text \<open>
  The board is an object of the python-chess library, which is not part of the
  repository. The model takes the library as a parameter: a record of the
  methods that \<^verbatim>\<open>bot.py\<close> calls, over a type \<open>'b\<close> of board states and a type
  \<open>'m\<close> of moves. Squares are numbered as in python-chess (a1 is 0, h8 is 63),
  colours are its booleans (\<^verbatim>\<open>chess.WHITE\<close> is \<^verbatim>\<open>True\<close>), and a \<^verbatim>\<open>SquareSet\<close> is the
  ascending list of its squares.
\<close>

type_synonym square = nat
type_synonym color = bool

definition WHITE :: color where "WHITE = True"
definition BLACK :: color where "BLACK = False"

definition E1 :: square where "E1 = 4"
definition E8 :: square where "E8 = 60"
definition D4 :: square where "D4 = 27"
definition E4 :: square where "E4 = 28"
definition D5 :: square where "D5 = 35"
definition E5 :: square where "E5 = 36"

definition SQUARES :: "square list" where
  "SQUARES = [0 ..< 64]"

datatype piece_type = PAWN | KNIGHT | BISHOP | ROOK | QUEEN | KING

record piece =
  piece_type :: piece_type
  piece_color :: color

text \<open>\<^verbatim>\<open>piece.symbol().lower()\<close>: the letter of the piece type, in lower case.\<close>

fun symbol_lower :: "piece \<Rightarrow> char" where
  "symbol_lower p =
     (case piece_type p of
        PAWN \<Rightarrow> CHR ''p'' | KNIGHT \<Rightarrow> CHR ''n'' | BISHOP \<Rightarrow> CHR ''b''
      | ROOK \<Rightarrow> CHR ''r'' | QUEEN \<Rightarrow> CHR ''q'' | KING \<Rightarrow> CHR ''k'')"

record ('b, 'm) engine =
  legal_moves :: "'b \<Rightarrow> 'm list"
  is_game_over :: "'b \<Rightarrow> bool"
  is_checkmate :: "'b \<Rightarrow> bool"
  push :: "'b \<Rightarrow> 'm \<Rightarrow> 'b"
  pop :: "'b \<Rightarrow> 'b"
  piece_at :: "'b \<Rightarrow> square \<Rightarrow> piece option"
  king :: "'b \<Rightarrow> color \<Rightarrow> square option"
  has_kingside_castling_rights :: "'b \<Rightarrow> color \<Rightarrow> bool"
  has_queenside_castling_rights :: "'b \<Rightarrow> color \<Rightarrow> bool"
  attacks :: "'b \<Rightarrow> square \<Rightarrow> square list"
  attackers :: "'b \<Rightarrow> color \<Rightarrow> square \<Rightarrow> square list"
  pieces :: "'b \<Rightarrow> piece_type \<Rightarrow> color \<Rightarrow> square list"
  move_str :: "'m \<Rightarrow> string"

datatype error = RecursionError | TypeError


section \<open>The evaluator\<close>

text \<open>\<^verbatim>\<open>get_piece_value\<close> (lines 157-179): the \<^verbatim>\<open>if\<close>/\<^verbatim>\<open>elif\<close> chain in the source's order,
  then the adjustment for the four central squares.\<close>

definition get_piece_value :: "color \<Rightarrow> piece \<Rightarrow> square \<Rightarrow> rat" where
  "get_piece_value color piece square =
     (let value =
        (if symbol_lower piece = CHR ''p'' then 1
         else if symbol_lower piece = CHR ''r'' then 5
         else if symbol_lower piece = CHR ''n'' then 3
         else if symbol_lower piece = CHR ''b'' then 3
         else if symbol_lower piece = CHR ''q'' then 9
         else if symbol_lower piece = CHR ''k'' then 100
         else 0)
      in if piece_color piece = color
         then (if square \<in> set [D4, E4, D5, E5] then value + 1 / 2 else value)
         else (if square \<in> set [D4, E4, D5, E5] then value - 1 / 2 else value))"

text \<open>The loop of \<^verbatim>\<open>evaluate_board\<close> over \<^verbatim>\<open>chess.SQUARES\<close> (lines 135-143), with the
  running \<^verbatim>\<open>score\<close> as an accumulator.\<close>

fun material_loop :: "('b, 'm) engine \<Rightarrow> color \<Rightarrow> 'b \<Rightarrow> rat \<Rightarrow> square list \<Rightarrow> rat" where
  "material_loop eng color board score [] = score"
| "material_loop eng color board score (square # rest) =
     (case piece_at eng board square of
        None \<Rightarrow> material_loop eng color board score rest
      | Some piece \<Rightarrow>
          if piece_color piece = color
          then material_loop eng color board (score + get_piece_value color piece square) rest
          else material_loop eng color board (score - get_piece_value color piece square) rest)"

text \<open>The king-dependent terms. A king square is the value that
  \<^verbatim>\<open>self.board.king(...)\<close> returned: a square or \<^verbatim>\<open>None\<close>.\<close>

definition is_king_exposed :: "('b, 'm) engine \<Rightarrow> color \<Rightarrow> 'b \<Rightarrow> square option \<Rightarrow> bool" where
  "is_king_exposed eng color board king_square =
     (\<not> has_kingside_castling_rights eng board (\<not> color)
      \<and> \<not> has_queenside_castling_rights eng board (\<not> color))"

definition get_attack_against_king_bonus :: "('b, 'm) engine \<Rightarrow> color \<Rightarrow> 'b \<Rightarrow> rat" where
  "get_attack_against_king_bonus eng color board =
     (let bonus = 0;
          opponent_king_square = king eng board (\<not> color);
          bonus = (if is_king_exposed eng color board opponent_king_square
                   then bonus + 10 else bonus);
          bonus = (if opponent_king_square \<in> set [Some D4, Some E4, Some D5, Some E5]
                   then bonus + 5 else bonus)
      in bonus)"

text \<open>\<^verbatim>\<open>self.board.attacks(None)\<close> raises a \<^verbatim>\<open>TypeError\<close> in the library; the
  function is only called under the guard of \<^verbatim>\<open>evaluate_board\<close>.\<close>

definition get_checkmate_threat_bonus :: "('b, 'm) engine \<Rightarrow> color \<Rightarrow> 'b \<Rightarrow> error + rat" where
  "get_checkmate_threat_bonus eng color board =
     (let bonus = 0;
          bonus = (if is_checkmate eng board then bonus + 50 else bonus)
      in case king eng board (\<not> color) of
           None \<Rightarrow> Inl TypeError
         | Some opponent_king_square \<Rightarrow>
             (let escape_squares = attacks eng board opponent_king_square
              in Inr (if length escape_squares \<le> 2 then bonus + 20 else bonus)))"

definition get_protect_key_pieces_bonus :: "('b, 'm) engine \<Rightarrow> color \<Rightarrow> 'b \<Rightarrow> rat" where
  "get_protect_key_pieces_bonus eng color board =
     (let bonus = 0;
          bonus = (case pieces eng board QUEEN color of
                     [] \<Rightarrow> bonus
                   | my_queen_square # _ \<Rightarrow>
                       if length (attackers eng board (\<not> color) my_queen_square) = 0
                       then bonus + 4 else bonus);
          bonus = (case pieces eng board QUEEN (\<not> color) of
                     [] \<Rightarrow> bonus
                   | opponent_queen_square # _ \<Rightarrow>
                       if length (attackers eng board color opponent_queen_square) = 0
                       then bonus - 2 else bonus);
          bonus = fold (\<lambda>square bonus.
                     if length (attackers eng board (\<not> color) square) = 0
                     then bonus + 2 else bonus) (pieces eng board ROOK color) bonus;
          bonus = fold (\<lambda>square bonus.
                     if length (attackers eng board color square) = 0
                     then bonus - 1 else bonus) (pieces eng board ROOK (\<not> color)) bonus;
          bonus = fold (\<lambda>square bonus.
                     if length (attackers eng board (\<not> color) square) = 0
                     then bonus + 1 else bonus) (pieces eng board KNIGHT color) bonus;
          bonus = fold (\<lambda>square bonus.
                     if length (attackers eng board (\<not> color) square) = 0
                     then bonus + 1 else bonus) (pieces eng board BISHOP color) bonus
      in bonus)"

definition get_king_safety_bonus ::
  "('b, 'm) engine \<Rightarrow> color \<Rightarrow> 'b \<Rightarrow> square option \<Rightarrow> rat" where
  "get_king_safety_bonus eng color board king_square =
     (let bonus = 0;
          bonus = (if has_kingside_castling_rights eng board color \<and> king_square = Some E1
                   then bonus + 2 else bonus);
          bonus = (if has_queenside_castling_rights eng board color \<and> king_square = Some E1
                   then bonus + 2 else bonus)
      in bonus)"

definition get_king_safety_penalty ::
  "('b, 'm) engine \<Rightarrow> color \<Rightarrow> 'b \<Rightarrow> square option \<Rightarrow> rat" where
  "get_king_safety_penalty eng color board king_square =
     (let penalty = 0;
          penalty = (if \<not> has_kingside_castling_rights eng board (\<not> color) \<and> king_square = Some E8
                     then penalty - 2 else penalty);
          penalty = (if \<not> has_queenside_castling_rights eng board (\<not> color) \<and> king_square = Some E8
                     then penalty - 2 else penalty)
      in penalty)"

definition evaluate_board :: "('b, 'm) engine \<Rightarrow> color \<Rightarrow> 'b \<Rightarrow> error + rat" where
  "evaluate_board eng color board =
     (let score = material_loop eng color board 0 SQUARES
      in if king eng board color \<noteq> None \<and> king eng board (\<not> color) \<noteq> None
         then
           (let my_king_square = king eng board color;
                opponent_king_square = king eng board (\<not> color);
                score = score + get_king_safety_bonus eng color board my_king_square
            in case get_checkmate_threat_bonus eng color board of
                 Inl e \<Rightarrow> Inl e
               | Inr threat \<Rightarrow>
                   (let score = score + threat;
                        score = score + get_attack_against_king_bonus eng color board;
                        score = score - get_king_safety_penalty eng color board opponent_king_square;
                        score = score + get_protect_key_pieces_bonus eng color board
                    in Inr score))
         else Inr score)"

section \<open>The searcher\<close>

text \<open>
  \<^verbatim>\<open>minimax\<close> (lines 34-70) mutates \<^verbatim>\<open>self.board\<close>, so the model takes the board and
  returns it beside the result. The depth is a Python integer and only
  \<^verbatim>\<open>depth == 0\<close> stops the descent, so a negative depth recurses until the game
  is over or the interpreter's stack is exhausted: \<open>fuel\<close> is the number of
  nested \<^verbatim>\<open>minimax\<close> frames the stack still admits, and running out of it is
  Python's \<^verbatim>\<open>RecursionError\<close>. An exception leaves the board as it was when it
  was raised; only a normal return carries a board.

  The two \<^verbatim>\<open>for\<close> loops are \<open>max_loop\<close> and \<open>min_loop\<close>, over the list
  \<^verbatim>\<open>legal_moves\<close> that was taken before the loop, with \<^verbatim>\<open>alpha\<close>, \<^verbatim>\<open>beta\<close>,
  \<^verbatim>\<open>best_eval\<close> and \<^verbatim>\<open>best_move\<close> as loop state.
\<close>

type_synonym ('b, 'm) search_result = "error + ((score \<times> 'm option) \<times> 'b)"

function minimax ::
  "('b, 'm) engine \<Rightarrow> color \<Rightarrow> nat \<Rightarrow> int \<Rightarrow> score \<Rightarrow> score \<Rightarrow> bool \<Rightarrow> 'b \<Rightarrow> ('b, 'm) search_result"
and max_loop ::
  "('b, 'm) engine \<Rightarrow> color \<Rightarrow> nat \<Rightarrow> int \<Rightarrow> score \<Rightarrow> score \<Rightarrow> score \<Rightarrow> 'm option \<Rightarrow> 'm list \<Rightarrow> 'b
     \<Rightarrow> ('b, 'm) search_result"
and min_loop ::
  "('b, 'm) engine \<Rightarrow> color \<Rightarrow> nat \<Rightarrow> int \<Rightarrow> score \<Rightarrow> score \<Rightarrow> score \<Rightarrow> 'm option \<Rightarrow> 'm list \<Rightarrow> 'b
     \<Rightarrow> ('b, 'm) search_result"
where
  "minimax eng color 0 depth alpha beta maximizing_player board = Inl RecursionError"
| "minimax eng color (Suc fuel) depth alpha beta maximizing_player board =
     (if depth = 0 \<or> is_game_over eng board
      then (case evaluate_board eng color board of
              Inl e \<Rightarrow> Inl e
            | Inr v \<Rightarrow> Inr ((Fin v, None), board))
      else
        (let legal = legal_moves eng board;
             best_move = None
         in if maximizing_player
            then max_loop eng color fuel depth alpha beta NegInf best_move legal board
            else min_loop eng color fuel depth alpha beta PosInf best_move legal board))"
| "max_loop eng color fuel depth alpha beta best_eval best_move [] board =
     Inr ((best_eval, best_move), board)"
| "max_loop eng color fuel depth alpha beta best_eval best_move (move # rest) board =
     (case minimax eng color fuel (depth - 1) alpha beta False (push eng board move) of
        Inl e \<Rightarrow> Inl e
      | Inr ((evaluation, _), board) \<Rightarrow>
          (let board = pop eng board;
               (best_eval, best_move) =
                 (if evaluation > best_eval then (evaluation, Some move)
                  else (best_eval, best_move));
               alpha = max alpha best_eval
           in if beta \<le> alpha then Inr ((best_eval, best_move), board)
              else max_loop eng color fuel depth alpha beta best_eval best_move rest board))"
| "min_loop eng color fuel depth alpha beta best_eval best_move [] board =
     Inr ((best_eval, best_move), board)"
| "min_loop eng color fuel depth alpha beta best_eval best_move (move # rest) board =
     (case minimax eng color fuel (depth - 1) alpha beta True (push eng board move) of
        Inl e \<Rightarrow> Inl e
      | Inr ((evaluation, _), board) \<Rightarrow>
          (let board = pop eng board;
               (best_eval, best_move) =
                 (if evaluation < best_eval then (evaluation, Some move)
                  else (best_eval, best_move));
               beta = min beta best_eval
           in if beta \<le> alpha then Inr ((best_eval, best_move), board)
              else min_loop eng color fuel depth alpha beta best_eval best_move rest board))"
  by pat_completeness auto

text \<open>Termination: a call of \<open>minimax\<close> from a loop keeps the fuel, a call of a loop from
  \<open>minimax\<close> lowers it, and a loop shortens its list.\<close>

termination
  by (relation "inv_image (less_than <*lex*> less_than)
        (\<lambda>x. case x of
            Inl (eng, color, fuel, rest) \<Rightarrow> (fuel, 0)
          | Inr (Inl (eng, color, fuel, depth, alpha, beta, be, bm, ms, b)) \<Rightarrow> (fuel, Suc (length ms))
          | Inr (Inr (eng, color, fuel, depth, alpha, beta, be, bm, ms, b)) \<Rightarrow> (fuel, Suc (length ms)))")
     auto

section \<open>The bot\<close>

record 'b bot =
  self_board :: 'b
  self_depth :: int
  self_color :: color

text \<open>\<^verbatim>\<open>Bot.__init__\<close>: the board is the one parsed from the FEN, the depth is 3.\<close>

definition init_bot :: "color \<Rightarrow> 'b \<Rightarrow> 'b bot" where
  "init_bot c b = \<lparr>self_board = b, self_depth = 3, self_color = c\<rparr>"

text \<open>\<^verbatim>\<open>get_best_move\<close> (lines 201-203) returns what \<^verbatim>\<open>minimax\<close> returned.
  \<^verbatim>\<open>next_move\<close> (lines 205-208) unpacks it and returns \<^verbatim>\<open>str(move)\<close>; its \<^verbatim>\<open>print\<close>
  is left out.\<close>

definition get_best_move ::
  "('b, 'm) engine \<Rightarrow> nat \<Rightarrow> 'b bot \<Rightarrow> error + ((score \<times> 'm option) \<times> 'b bot)" where
  "get_best_move eng fuel self =
     (case minimax eng (self_color self) fuel (self_depth self) NegInf PosInf True (self_board self) of
        Inl e \<Rightarrow> Inl e
      | Inr (best_move, board') \<Rightarrow> Inr (best_move, self\<lparr>self_board := board'\<rparr>))"

definition str_move :: "('b, 'm) engine \<Rightarrow> 'm option \<Rightarrow> string" where
  "str_move eng move = (case move of None \<Rightarrow> ''None'' | Some m \<Rightarrow> move_str eng m)"

definition next_move ::
  "('b, 'm) engine \<Rightarrow> nat \<Rightarrow> 'b bot \<Rightarrow> error + (string \<times> 'b bot)" where
  "next_move eng fuel self =
     (case minimax eng (self_color self) fuel (self_depth self) NegInf PosInf True (self_board self) of
        Inl e \<Rightarrow> Inl e
      | Inr ((eval, move), board') \<Rightarrow> Inr (str_move eng move, self\<lparr>self_board := board'\<rparr>))"


section \<open>The unpruned search\<close>

text \<open>
  The traversal that the searcher is compared with: plain minimax over the same
  tree, written from the specification's words (evaluate at depth zero and at
  game-over positions, otherwise the maximum, or the minimum, of all successor
  values), with no window and no cutoff. A leaf's value is what
  \<^verbatim>\<open>evaluate_board\<close> returns there.
\<close>

definition evaluate_score :: "('b, 'm) engine \<Rightarrow> color \<Rightarrow> 'b \<Rightarrow> rat" where
  "evaluate_score eng color board =
     (case evaluate_board eng color board of Inr v \<Rightarrow> v | Inl e \<Rightarrow> 0)"

fun full_minimax :: "('b, 'm) engine \<Rightarrow> color \<Rightarrow> nat \<Rightarrow> bool \<Rightarrow> 'b \<Rightarrow> score" where
  "full_minimax eng color 0 maximizing board = Fin (evaluate_score eng color board)"
| "full_minimax eng color (Suc d) maximizing board =
     (if is_game_over eng board then Fin (evaluate_score eng color board)
      else if maximizing
      then foldr max
             (map (\<lambda>move. full_minimax eng color d False (push eng board move))
                (legal_moves eng board)) NegInf
      else foldr min
             (map (\<lambda>move. full_minimax eng color d True (push eng board move))
                (legal_moves eng board)) PosInf)"

text \<open>What the searcher needs of the library: undoing a legal move that was just
  made gives the board back.\<close>

definition pop_undoes_push :: "('b, 'm) engine \<Rightarrow> bool" where
  "pop_undoes_push eng =
     (\<forall>b. \<forall>m \<in> set (legal_moves eng b). pop eng (push eng b m) = b)"

text \<open>A library in which a position with no legal move is reported as over, as
  the rules of chess have it (checkmate or stalemate).\<close>

definition no_move_is_over :: "('b, 'm) engine \<Rightarrow> bool" where
  "no_move_is_over eng = (\<forall>b. legal_moves eng b = [] \<longrightarrow> is_game_over eng b)"

section \<open>Concrete positions and games\<close>

text \<open>
  A position given by its contents: the pieces on their squares, the colours
  that hold each castling right, the flags, and the attack tables (the squares
  attacked from a square; the attackers of a colour on a square).
\<close>

record snapshot =
  placed :: "(square \<times> piece) list"
  castle_k :: "color list"
  castle_q :: "color list"
  mate :: bool
  over :: bool
  attack_map :: "(square \<times> square list) list"
  attacker_map :: "((color \<times> square) \<times> square list) list"

definition snap_king :: "snapshot \<Rightarrow> color \<Rightarrow> square option" where
  "snap_king s c =
     map_option fst
       (find (\<lambda>(sq, p). piece_type p = KING \<and> piece_color p = c) (placed s))"

definition snap_pieces :: "snapshot \<Rightarrow> piece_type \<Rightarrow> color \<Rightarrow> square list" where
  "snap_pieces s t c =
     filter (\<lambda>sq. map_of (placed s) sq = Some \<lparr>piece_type = t, piece_color = c\<rparr>) SQUARES"

definition lookup_list :: "('k \<times> 'v list) list \<Rightarrow> 'k \<Rightarrow> 'v list" where
  "lookup_list t k = (case map_of t k of None \<Rightarrow> [] | Some v \<Rightarrow> v)"

text \<open>A game as a tree of positions: the board is the stack of the moves made from
  the root, \<open>node\<close> gives the position reached and \<open>moves\<close> the legal moves there.\<close>

definition path_engine ::
  "(nat list \<Rightarrow> snapshot) \<Rightarrow> (nat list \<Rightarrow> nat list) \<Rightarrow> (nat list, nat) engine" where
  "path_engine node moves =
     \<lparr>legal_moves = moves,
      is_game_over = (\<lambda>b. over (node b)),
      is_checkmate = (\<lambda>b. mate (node b)),
      push = (\<lambda>b m. m # b),
      pop = tl,
      piece_at = (\<lambda>b. map_of (placed (node b))),
      king = (\<lambda>b. snap_king (node b)),
      has_kingside_castling_rights = (\<lambda>b c. c \<in> set (castle_k (node b))),
      has_queenside_castling_rights = (\<lambda>b c. c \<in> set (castle_q (node b))),
      attacks = (\<lambda>b. lookup_list (attack_map (node b))),
      attackers = (\<lambda>b c sq. lookup_list (attacker_map (node b)) (c, sq)),
      pieces = (\<lambda>b. snap_pieces (node b)),
      move_str = (\<lambda>m. if m = 0 then ''a'' else ''b'')\<rparr>"

definition white_pawn :: piece where
  "white_pawn = \<lparr>piece_type = PAWN, piece_color = WHITE\<rparr>"

text \<open>\<open>pawns k\<close>: nothing but \<open>k\<close> white pawns, on a2, b2, ...; \<open>fin\<close> marks the
  position as over.\<close>

definition pawns :: "nat \<Rightarrow> bool \<Rightarrow> snapshot" where
  "pawns k fin =
     \<lparr>placed = map (\<lambda>sq. (sq, white_pawn)) [8 ..< 8 + k],
      castle_k = [], castle_q = [], mate = False, over = fin,
      attack_map = [], attacker_map = []\<rparr>"

text \<open>A game of two plies with two moves each; the leaves, in the order of the
  search, are worth 3, 5, 2 and 9 pawns.\<close>

definition two_ply_node :: "nat list \<Rightarrow> snapshot" where
  "two_ply_node b =
     (if b = [0, 0] then pawns 3 True
      else if b = [1, 0] then pawns 5 True
      else if b = [0, 1] then pawns 2 True
      else if b = [1, 1] then pawns 9 True
      else pawns 0 (2 \<le> length b))"

definition two_ply_moves :: "nat list \<Rightarrow> nat list" where
  "two_ply_moves b = (if length b < 2 then [0, 1] else [])"

definition two_ply :: "(nat list, nat) engine" where
  "two_ply = path_engine two_ply_node two_ply_moves"

text \<open>A game whose only move leads to a position that is not over and has no
  legal move.\<close>

definition dead_end :: "(nat list, nat) engine" where
  "dead_end = path_engine (\<lambda>b. pawns 0 False) (\<lambda>b. if b = [] then [0] else [])"


text \<open>A position on its own, with no move to make.\<close>

definition static :: "snapshot \<Rightarrow> (nat list, nat) engine" where
  "static s = path_engine (\<lambda>b. s) (\<lambda>b. [])"

definition mk_piece :: "piece_type \<Rightarrow> color \<Rightarrow> piece" where
  "mk_piece t c = \<lparr>piece_type = t, piece_color = c\<rparr>"

text \<open>
  Kings on e1 and e8 and all four rooks on their corners
  (\<^verbatim>\<open>r3k2r/8/8/8/8/8/8/R3K2R\<close>). Both sides hold the queenside right; \<open>ks\<close> lists the
  colours that hold the kingside right. The tables answer what the evaluator
  asks: the squares next to each king, and the rook that attacks each rook
  along its file.
\<close>

definition castle_position :: "color list \<Rightarrow> snapshot" where
  "castle_position ks =
     \<lparr>placed = [(0, mk_piece ROOK WHITE), (4, mk_piece KING WHITE), (7, mk_piece ROOK WHITE),
                (56, mk_piece ROOK BLACK), (60, mk_piece KING BLACK), (63, mk_piece ROOK BLACK)],
      castle_k = ks, castle_q = [WHITE, BLACK], mate = False, over = False,
      attack_map = [(4, [3, 5, 11, 12, 13]), (60, [51, 52, 53, 59, 61])],
      attacker_map = [((BLACK, 0), [56]), ((BLACK, 7), [63]),
                      ((WHITE, 56), [0]), ((WHITE, 63), [7])]\<rparr>"

text \<open>Kings on e1 and e8 and a white pawn on e4 (\<^verbatim>\<open>4k3/8/8/8/4P3/8/8/4K3\<close>).\<close>

definition pawn_e4_position :: snapshot where
  "pawn_e4_position =
     \<lparr>placed = [(4, mk_piece KING WHITE), (28, mk_piece PAWN WHITE), (60, mk_piece KING BLACK)],
      castle_k = [], castle_q = [], mate = False, over = False,
      attack_map = [(4, [3, 5, 11, 12, 13]), (28, [35, 37]), (60, [51, 52, 53, 59, 61])],
      attacker_map = []\<rparr>"

section \<open>Reading a result against a window\<close>

text \<open>
  How a pruned result \<open>v\<close> for the window from \<open>a\<close> to \<open>b\<close> stands to the true value
  \<open>t\<close> of the position: a result below \<open>b\<close> is an upper bound of \<open>t\<close>, a result
  above \<open>a\<close> is a lower bound.
\<close>

definition window_agrees :: "score \<Rightarrow> score \<Rightarrow> score \<Rightarrow> score \<Rightarrow> bool" where
  "window_agrees a b v t = ((v < b \<longrightarrow> t \<le> v) \<and> (a < v \<longrightarrow> v \<le> t))"

section \<open>Facts about scores and the evaluator\<close>

lemma NegInf_least [simp]: "NegInf \<le> (x::score)"
  by simp

lemma PosInf_greatest [simp]: "(x::score) \<le> PosInf"
  by (cases x) simp_all

lemma score_less_simps [simp]:
  "NegInf < Fin x" "Fin x < PosInf" "NegInf < PosInf"
  "(Fin x < Fin y) = (x < y)"
  "\<not> x' < NegInf" "\<not> PosInf < x'"
  by (auto simp: less_score_def)

text \<open>The evaluator never reads the list of legal moves.\<close>

lemma material_loop_legal_moves:
  "material_loop (eng\<lparr>legal_moves := lm\<rparr>) color board score sqs
     = material_loop eng color board score sqs"
  by (induction sqs arbitrary: score) (auto split: option.splits)

lemma king_legal_moves: "king (eng\<lparr>legal_moves := lm\<rparr>) = king eng"
  by simp

lemma bonus_legal_moves:
  "get_king_safety_bonus (eng\<lparr>legal_moves := lm\<rparr>) = get_king_safety_bonus eng"
  by (simp add: fun_eq_iff get_king_safety_bonus_def)

lemma penalty_legal_moves:
  "get_king_safety_penalty (eng\<lparr>legal_moves := lm\<rparr>) = get_king_safety_penalty eng"
  by (simp add: fun_eq_iff get_king_safety_penalty_def)

lemma threat_legal_moves:
  "get_checkmate_threat_bonus (eng\<lparr>legal_moves := lm\<rparr>) = get_checkmate_threat_bonus eng"
  by (simp add: fun_eq_iff get_checkmate_threat_bonus_def cong: option.case_cong)

lemma attack_legal_moves:
  "get_attack_against_king_bonus (eng\<lparr>legal_moves := lm\<rparr>) = get_attack_against_king_bonus eng"
  by (simp add: fun_eq_iff get_attack_against_king_bonus_def is_king_exposed_def)

lemma protect_legal_moves:
  "get_protect_key_pieces_bonus (eng\<lparr>legal_moves := lm\<rparr>) = get_protect_key_pieces_bonus eng"
  by (simp add: fun_eq_iff get_protect_key_pieces_bonus_def cong: list.case_cong)

lemma evaluate_board_legal_moves:
  "evaluate_board (eng\<lparr>legal_moves := lm\<rparr>) color board = evaluate_board eng color board"
  unfolding evaluate_board_def
  by (simp only: material_loop_legal_moves king_legal_moves bonus_legal_moves penalty_legal_moves
      threat_legal_moves attack_legal_moves protect_legal_moves)

text \<open>\<^verbatim>\<open>evaluate_board\<close> never raises: its guard keeps \<^verbatim>\<open>get_checkmate_threat_bonus\<close>
  away from a missing king.\<close>

lemma evaluate_board_Inr:
  "evaluate_board eng color board = Inr (evaluate_score eng color board)"
  by (auto simp: evaluate_board_def evaluate_score_def get_checkmate_threat_bonus_def Let_def
      split: option.splits)

section \<open>The base case of the search\<close>

text \<open>
  Claim C5. At depth zero, or on a position that the library reports as over,
  \<^verbatim>\<open>minimax\<close> returns the evaluator's score with no move and leaves the board as it
  is, whatever the window and the side. It does so without the legal moves: the
  result is the same when the library's \<^verbatim>\<open>legal_moves\<close> is replaced by any other
  function \<open>lm\<close>. One stack frame is all the call needs.
\<close>

theorem minimax_base_case:
  assumes "depth = 0 \<or> is_game_over eng board"
  shows "\<exists>v. evaluate_board eng color board = Inr v
           \<and> minimax (eng\<lparr>legal_moves := lm\<rparr>) color (Suc fuel) depth alpha beta maximizing board
               = Inr ((Fin v, None), board)"
proof -
  have "evaluate_board (eng\<lparr>legal_moves := lm\<rparr>) color board
          = Inr (evaluate_score eng color board)"
    by (simp only: evaluate_board_legal_moves) (rule evaluate_board_Inr)
  with assms evaluate_board_Inr [of eng color board] show ?thesis
    by auto
qed

theorem minimax_base_case_witness:
  "(2 = (0::int) \<or> is_game_over two_ply [0, 0])
   \<and> evaluate_board two_ply WHITE [0, 0] = Inr 3
   \<and> minimax (two_ply\<lparr>legal_moves := (\<lambda>b. [5, 6])\<rparr>) WHITE (Suc 0) 2 NegInf PosInf True [0, 0]
       = Inr ((Fin 3, None), [0, 0])"
proof -
  have over: "(2::int) = 0 \<or> is_game_over two_ply [0, 0]"
    by code_simp
  have val: "evaluate_board two_ply WHITE [0, 0] = Inr 3"
    by code_simp
  from minimax_base_case [OF over, of WHITE "\<lambda>b. [5, 6]" 0 NegInf PosInf True] val over
  show ?thesis by simp
qed


section \<open>Pruning does not change the score\<close>

text \<open>The order-theoretic core: one step of each loop keeps the reading of the
  result against the window.\<close>

lemmas max_min_order =
  le_max_iff_disj max.bounded_iff less_max_iff_disj max_less_iff_conj
  min_le_iff_disj min.bounded_iff min_less_iff_disj min_less_iff_conj

lemma max_step_cut:
  fixes be :: score
  assumes "be \<le> alpha" "alpha < beta" "window_agrees alpha beta v t" "beta \<le> max alpha (max be v)"
  shows "window_agrees alpha beta (max be v) (max be (max t R))"
  using assms unfolding window_agrees_def max_min_order
  by (meson leD le_less_trans less_le_trans order_trans less_imp_le not_le_imp_less)

lemma max_step_go:
  fixes be :: score
  assumes "be \<le> alpha" "alpha < beta" "window_agrees alpha beta v t"
    "\<not> beta \<le> max alpha (max be v)"
    "window_agrees (max alpha (max be v)) beta V (max (max be v) R)"
  shows "window_agrees alpha beta V (max be (max t R))"
  using assms unfolding window_agrees_def max_min_order
  by (meson leD le_less_trans less_le_trans order_trans less_imp_le not_le_imp_less)

lemma min_step_cut:
  fixes be :: score
  assumes "beta \<le> be" "alpha < beta" "window_agrees alpha beta v t" "min beta (min be v) \<le> alpha"
  shows "window_agrees alpha beta (min be v) (min be (min t R))"
  using assms unfolding window_agrees_def max_min_order
  by (meson leD le_less_trans less_le_trans order_trans less_imp_le not_le_imp_less)

lemma min_step_go:
  fixes be :: score
  assumes "beta \<le> be" "alpha < beta" "window_agrees alpha beta v t"
    "\<not> min beta (min be v) \<le> alpha"
    "window_agrees alpha (min beta (min be v)) V (min (min be v) R)"
  shows "window_agrees alpha beta V (min be (min t R))"
  using assms unfolding window_agrees_def max_min_order
  by (meson leD le_less_trans less_le_trans order_trans less_imp_le not_le_imp_less)

lemma window_full: "window_agrees NegInf PosInf v t \<Longrightarrow> v = t"
  unfolding window_agrees_def
  by (cases v; cases t) (auto simp: less_score_def)

text \<open>One iteration of each loop, once the recursive call has returned.\<close>

lemma max_loop_Cons_eq:
  assumes "minimax eng color fuel (depth - 1) alpha beta False (push eng board x) = Inr ((v, mv), b1)"
  shows "max_loop eng color fuel depth alpha beta be bm (x # xs) board =
     (if beta \<le> max alpha (max be v)
      then Inr ((max be v, if be < v then Some x else bm), pop eng b1)
      else max_loop eng color fuel depth (max alpha (max be v)) beta (max be v)
             (if be < v then Some x else bm) xs (pop eng b1))"
proof (cases "be < v")
  case True
  then have "max be v = v" by (simp add: max_absorb2 less_imp_le)
  with True assms show ?thesis by (simp add: Let_def)
next
  case False
  then have "max be v = be" by (simp add: max_absorb1 not_less)
  with False assms show ?thesis by (simp add: Let_def)
qed

lemma min_loop_Cons_eq:
  assumes "minimax eng color fuel (depth - 1) alpha beta True (push eng board x) = Inr ((v, mv), b1)"
  shows "min_loop eng color fuel depth alpha beta be bm (x # xs) board =
     (if min beta (min be v) \<le> alpha
      then Inr ((min be v, if v < be then Some x else bm), pop eng b1)
      else min_loop eng color fuel depth alpha (min beta (min be v)) (min be v)
             (if v < be then Some x else bm) xs (pop eng b1))"
proof (cases "v < be")
  case True
  then have "min be v = v" by (simp add: min_absorb2 less_imp_le)
  with True assms show ?thesis by (simp add: Let_def)
next
  case False
  then have "min be v = be" by (simp add: min_absorb1 not_less)
  with False assms show ?thesis by (simp add: Let_def)
qed

lemma window_agrees_refl: "window_agrees a b v v"
  by (simp add: window_agrees_def)

lemma max_loop_window:
  assumes rec: "\<And>a b board'. a < b \<Longrightarrow>
            \<exists>v mv. minimax eng color fuel d a b False board' = Inr ((v, mv), board')
                  \<and> window_agrees a b v (full_minimax eng color n False board')"
      and d: "d = depth - 1"
      and undo: "\<forall>m \<in> set ms. pop eng (push eng board m) = board"
      and be: "be \<le> alpha" and ab: "alpha < beta"
  shows "\<exists>V mv. max_loop eng color fuel depth alpha beta be bm ms board = Inr ((V, mv), board)
           \<and> window_agrees alpha beta V
               (max be (foldr max (map (\<lambda>m. full_minimax eng color n False (push eng board m)) ms) NegInf))"
  using undo be ab
proof (induction ms arbitrary: alpha be bm)
  case Nil
  then show ?case by (simp add: max_absorb1 window_agrees_refl)
next
  case (Cons x xs)
  let ?t = "full_minimax eng color n False (push eng board x)"
  let ?R = "foldr max (map (\<lambda>m. full_minimax eng color n False (push eng board m)) xs) NegInf"
  from rec [OF Cons.prems(3), of "push eng board x"] obtain v mv where
    child: "minimax eng color fuel (depth - 1) alpha beta False (push eng board x)
              = Inr ((v, mv), push eng board x)"
    and w: "window_agrees alpha beta v ?t"
    unfolding d by blast
  from Cons.prems(1) have undone: "pop eng (push eng board x) = board" by simp
  note unfold = max_loop_Cons_eq [OF child, of be bm xs, unfolded undone]
  show ?case
  proof (cases "beta \<le> max alpha (max be v)")
    case True
    from max_step_cut [OF Cons.prems(2,3) w True, of ?R] True unfold
    show ?thesis by simp
  next
    case False
    have le: "max be v \<le> max alpha (max be v)" by (rule max.cobounded2)
    from False have lt: "max alpha (max be v) < beta" by (simp only: not_le)
    from Cons.prems(1) have undo': "\<forall>m \<in> set xs. pop eng (push eng board m) = board" by simp
    from Cons.IH [OF undo' le lt, of "if be < v then Some x else bm"] obtain V mv' where
      run: "max_loop eng color fuel depth (max alpha (max be v)) beta (max be v)
              (if be < v then Some x else bm) xs board = Inr ((V, mv'), board)"
      and w': "window_agrees (max alpha (max be v)) beta V (max (max be v) ?R)"
      by blast
    from max_step_go [OF Cons.prems(2,3) w False w'] run False unfold
    show ?thesis by simp
  qed
qed

lemma min_loop_window:
  assumes rec: "\<And>a b board'. a < b \<Longrightarrow>
            \<exists>v mv. minimax eng color fuel d a b True board' = Inr ((v, mv), board')
                  \<and> window_agrees a b v (full_minimax eng color n True board')"
      and d: "d = depth - 1"
      and undo: "\<forall>m \<in> set ms. pop eng (push eng board m) = board"
      and be: "beta \<le> be" and ab: "alpha < beta"
  shows "\<exists>V mv. min_loop eng color fuel depth alpha beta be bm ms board = Inr ((V, mv), board)
           \<and> window_agrees alpha beta V
               (min be (foldr min (map (\<lambda>m. full_minimax eng color n True (push eng board m)) ms) PosInf))"
  using undo be ab
proof (induction ms arbitrary: beta be bm)
  case Nil
  then show ?case by (simp add: min_absorb1 window_agrees_refl)
next
  case (Cons x xs)
  let ?t = "full_minimax eng color n True (push eng board x)"
  let ?R = "foldr min (map (\<lambda>m. full_minimax eng color n True (push eng board m)) xs) PosInf"
  from rec [OF Cons.prems(3), of "push eng board x"] obtain v mv where
    child: "minimax eng color fuel (depth - 1) alpha beta True (push eng board x)
              = Inr ((v, mv), push eng board x)"
    and w: "window_agrees alpha beta v ?t"
    unfolding d by blast
  from Cons.prems(1) have undone: "pop eng (push eng board x) = board" by simp
  note unfold = min_loop_Cons_eq [OF child, of be bm xs, unfolded undone]
  show ?case
  proof (cases "min beta (min be v) \<le> alpha")
    case True
    from min_step_cut [OF Cons.prems(2,3) w True, of ?R] True unfold
    show ?thesis by simp
  next
    case False
    have le: "min beta (min be v) \<le> min be v" by (rule min.cobounded2)
    from False have lt: "alpha < min beta (min be v)" by (simp only: not_le)
    from Cons.prems(1) have undo': "\<forall>m \<in> set xs. pop eng (push eng board m) = board" by simp
    from Cons.IH [OF undo' le lt, of "if v < be then Some x else bm"] obtain V mv' where
      run: "min_loop eng color fuel depth alpha (min beta (min be v)) (min be v)
              (if v < be then Some x else bm) xs board = Inr ((V, mv'), board)"
      and w': "window_agrees alpha (min beta (min be v)) V (min (min be v) ?R)"
      by blast
    from min_step_go [OF Cons.prems(2,3) w False w'] run False unfold
    show ?thesis by simp
  qed
qed

lemma minimax_window:
  assumes undo: "pop_undoes_push eng"
  shows "0 \<le> depth \<Longrightarrow> nat depth < fuel \<Longrightarrow> alpha < beta \<Longrightarrow>
         \<exists>v mv. minimax eng color fuel depth alpha beta maximizing board = Inr ((v, mv), board)
               \<and> window_agrees alpha beta v (full_minimax eng color (nat depth) maximizing board)"
proof (induction fuel arbitrary: depth alpha beta maximizing board)
  case 0
  then show ?case by simp
next
  case (Suc fuel)
  from undo have undo': "\<forall>m \<in> set (legal_moves eng board). pop eng (push eng board m) = board"
    by (simp add: pop_undoes_push_def)
  show ?case
  proof (cases "depth = 0 \<or> is_game_over eng board")
    case True
    then have "full_minimax eng color (nat depth) maximizing board
                 = Fin (evaluate_score eng color board)"
      by (cases "nat depth") auto
    with True show ?thesis
      by (auto simp: evaluate_board_Inr window_agrees_refl)
  next
    case False
    with Suc.prems have pos: "0 < depth" by simp
    then obtain n where n: "nat depth = Suc n" "nat (depth - 1) = n"
      by (cases "nat depth") auto
    from pos Suc.prems n have d1: "0 \<le> depth - 1" "nat (depth - 1) < fuel" by simp_all
    have rec: "\<exists>v mv. minimax eng color fuel (depth - 1) a b mx board'
                  = Inr ((v, mv), board')
                \<and> window_agrees a b v (full_minimax eng color n mx board')"
      if "a < b" for a b mx board'
      using Suc.IH [OF d1 that, of mx board'] n by simp
    show ?thesis
    proof (cases maximizing)
      case True
      from max_loop_window [OF rec refl undo' NegInf_least Suc.prems(3), of None]
      obtain V mv where
        "max_loop eng color fuel depth alpha beta NegInf None (legal_moves eng board) board
           = Inr ((V, mv), board)"
        "window_agrees alpha beta V
           (max NegInf (foldr max (map (\<lambda>m. full_minimax eng color n False (push eng board m))
              (legal_moves eng board)) NegInf))"
        by blast
      with True False n show ?thesis
        by (auto simp: Let_def max_absorb2)
    next
      case mini: False
      from min_loop_window [OF rec refl undo' PosInf_greatest Suc.prems(3), of None]
      obtain V mv where
        "min_loop eng color fuel depth alpha beta PosInf None (legal_moves eng board) board
           = Inr ((V, mv), board)"
        "window_agrees alpha beta V
           (min PosInf (foldr min (map (\<lambda>m. full_minimax eng color n True (push eng board m))
              (legal_moves eng board)) PosInf))"
        by blast
      with mini False n show ?thesis
        by (auto simp: Let_def min_absorb2)
    qed
  qed
qed

text \<open>A move that a loop returns is one of its list, or the one it started with.\<close>

lemma max_loop_move:
  "max_loop eng color fuel depth alpha beta be bm ms board = Inr ((v, Some m), board')
   \<Longrightarrow> m \<in> set ms \<or> bm = Some m"
proof (induction ms arbitrary: alpha be bm board)
  case Nil
  then show ?case by simp
next
  case (Cons x xs)
  then show ?case
    by (fastforce simp: Let_def split: sum.splits prod.splits if_splits)
qed

lemma min_loop_move:
  "min_loop eng color fuel depth alpha beta be bm ms board = Inr ((v, Some m), board')
   \<Longrightarrow> m \<in> set ms \<or> bm = Some m"
proof (induction ms arbitrary: beta be bm board)
  case Nil
  then show ?case by simp
next
  case (Cons x xs)
  then show ?case
    by (fastforce simp: Let_def split: sum.splits prod.splits if_splits)
qed

text \<open>
  At the root the window is the full one, and the bound that the loop raises (or
  lowers) is the best score so far. A successor that improves on it is then
  scored exactly, so the move kept beside the best score is a move that reaches
  it; and a best score other than the seed has a move beside it.
\<close>

lemma window_top_exact:
  assumes "window_agrees be PosInf v t" and "be < v"
  shows "t = v"
proof (cases "v = PosInf")
  case True
  with assms show ?thesis
    by (cases t) (auto simp: window_agrees_def)
next
  case False
  then have "v < PosInf" by (cases v) simp_all
  with assms show ?thesis
    by (auto simp: window_agrees_def)
qed

lemma window_bottom_exact:
  assumes "window_agrees NegInf be v t" and "v < be"
  shows "t = v"
proof (cases "v = NegInf")
  case True
  with assms show ?thesis
    by (cases t) (auto simp: window_agrees_def)
next
  case False
  then have "NegInf < v" by (cases v) simp_all
  with assms show ?thesis
    by (auto simp: window_agrees_def)
qed

lemma max_loop_root:
  assumes rec: "\<And>a b board'. a < b \<Longrightarrow>
            \<exists>v mv. minimax eng color fuel d a b False board' = Inr ((v, mv), board')
                  \<and> window_agrees a b v (full_minimax eng color n False board')"
      and d: "d = depth - 1"
      and undo: "\<forall>m \<in> set ms. pop eng (push eng board m) = board"
      and lt: "be < PosInf"
      and best: "\<forall>m. bm = Some m \<longrightarrow> full_minimax eng color n False (push eng board m) = be"
      and some: "be \<noteq> NegInf \<longrightarrow> bm \<noteq> None"
  shows "\<exists>V mv. max_loop eng color fuel depth be PosInf be bm ms board = Inr ((V, mv), board)
           \<and> (\<forall>m. mv = Some m \<longrightarrow> full_minimax eng color n False (push eng board m) = V)
           \<and> (V \<noteq> NegInf \<longrightarrow> mv \<noteq> None)"
  using undo lt best some
proof (induction ms arbitrary: be bm)
  case Nil
  then show ?case by simp
next
  case (Cons x xs)
  let ?t = "full_minimax eng color n False (push eng board x)"
  let ?B = "max be v"
  from rec [OF Cons.prems(2), of "push eng board x"] obtain v mv where
    child: "minimax eng color fuel (depth - 1) be PosInf False (push eng board x)
              = Inr ((v, mv), push eng board x)"
    and w: "window_agrees be PosInf v ?t"
    unfolding d by blast
  from Cons.prems(1) have undone: "pop eng (push eng board x) = board" by simp
  let ?bm = "if be < v then Some x else bm"
  have alpha: "max be (max be v) = max be v" by simp
  note unfold = max_loop_Cons_eq [OF child, of be bm xs, unfolded undone alpha]
  have best': "\<forall>m. ?bm = Some m \<longrightarrow> full_minimax eng color n False (push eng board m) = max be v"
  proof (cases "be < v")
    case True
    from window_top_exact [OF w True] True show ?thesis
      by (simp add: max_absorb2 less_imp_le)
  next
    case False
    with Cons.prems(3) show ?thesis
      by (simp add: max_absorb1 not_less)
  qed
  have some': "max be v \<noteq> NegInf \<longrightarrow> ?bm \<noteq> None"
  proof (cases "be < v")
    case True
    then show ?thesis by simp
  next
    case False
    with Cons.prems(4) show ?thesis
      by (simp add: max_absorb1 not_less)
  qed
  show ?case
  proof (cases "PosInf \<le> max be v")
    case True
    with unfold best' some' show ?thesis by simp
  next
    case False
    then have lt': "max be v < PosInf" by (simp only: not_le)
    from Cons.prems(1) have undo': "\<forall>m \<in> set xs. pop eng (push eng board m) = board" by simp
    from Cons.IH [OF undo' lt' best' some'] unfold False show ?thesis by simp
  qed
qed

lemma min_loop_root:
  assumes rec: "\<And>a b board'. a < b \<Longrightarrow>
            \<exists>v mv. minimax eng color fuel d a b True board' = Inr ((v, mv), board')
                  \<and> window_agrees a b v (full_minimax eng color n True board')"
      and d: "d = depth - 1"
      and undo: "\<forall>m \<in> set ms. pop eng (push eng board m) = board"
      and lt: "NegInf < be"
      and best: "\<forall>m. bm = Some m \<longrightarrow> full_minimax eng color n True (push eng board m) = be"
      and some: "be \<noteq> PosInf \<longrightarrow> bm \<noteq> None"
  shows "\<exists>V mv. min_loop eng color fuel depth NegInf be be bm ms board = Inr ((V, mv), board)
           \<and> (\<forall>m. mv = Some m \<longrightarrow> full_minimax eng color n True (push eng board m) = V)
           \<and> (V \<noteq> PosInf \<longrightarrow> mv \<noteq> None)"
  using undo lt best some
proof (induction ms arbitrary: be bm)
  case Nil
  then show ?case by simp
next
  case (Cons x xs)
  let ?t = "full_minimax eng color n True (push eng board x)"
  from rec [OF Cons.prems(2), of "push eng board x"] obtain v mv where
    child: "minimax eng color fuel (depth - 1) NegInf be True (push eng board x)
              = Inr ((v, mv), push eng board x)"
    and w: "window_agrees NegInf be v ?t"
    unfolding d by blast
  from Cons.prems(1) have undone: "pop eng (push eng board x) = board" by simp
  let ?bm = "if v < be then Some x else bm"
  have beta: "min be (min be v) = min be v" by simp
  note unfold = min_loop_Cons_eq [OF child, of be bm xs, unfolded undone beta]
  have best': "\<forall>m. ?bm = Some m \<longrightarrow> full_minimax eng color n True (push eng board m) = min be v"
  proof (cases "v < be")
    case True
    from window_bottom_exact [OF w True] True show ?thesis
      by (simp add: min_absorb2 less_imp_le)
  next
    case False
    with Cons.prems(3) show ?thesis
      by (simp add: min_absorb1 not_less)
  qed
  have some': "min be v \<noteq> PosInf \<longrightarrow> ?bm \<noteq> None"
  proof (cases "v < be")
    case True
    then show ?thesis by simp
  next
    case False
    with Cons.prems(4) show ?thesis
      by (simp add: min_absorb1 not_less)
  qed
  show ?case
  proof (cases "min be v \<le> NegInf")
    case True
    with unfold best' some' show ?thesis by simp
  next
    case False
    then have lt': "NegInf < min be v" by (simp only: not_le)
    from Cons.prems(1) have undo': "\<forall>m \<in> set xs. pop eng (push eng board m) = board" by simp
    from Cons.IH [OF undo' lt' best' some'] unfold False show ?thesis by simp
  qed
qed

lemma minimax_root_move:
  assumes undo: "pop_undoes_push eng" and d0: "0 \<le> depth" and f: "nat depth < fuel"
    and run: "minimax eng color fuel depth NegInf PosInf maximizing board = Inr ((V, mv), b')"
  shows "(\<forall>m. mv = Some m \<longrightarrow>
            m \<in> set (legal_moves eng board)
            \<and> full_minimax eng color (nat (depth - 1)) (\<not> maximizing) (push eng board m) = V)
       \<and> (depth \<noteq> 0 \<and> \<not> is_game_over eng board
            \<and> V \<noteq> (if maximizing then NegInf else PosInf) \<longrightarrow> mv \<noteq> None)"
proof (cases fuel)
  case 0
  with run show ?thesis by simp
next
  case (Suc k)
  show ?thesis
  proof (cases "depth = 0 \<or> is_game_over eng board")
    case True
    with run Suc show ?thesis by (auto simp: evaluate_board_Inr)
  next
    case False
    with d0 f Suc have d1: "0 \<le> depth - 1" "nat (depth - 1) < k" by auto
    have rec: "\<exists>v mv. minimax eng color k (depth - 1) a b mx board'
                  = Inr ((v, mv), board')
                \<and> window_agrees a b v (full_minimax eng color (nat (depth - 1)) mx board')"
      if "a < b" for a b mx board'
      using minimax_window [OF undo d1 that] .
    from undo have undo': "\<forall>m \<in> set (legal_moves eng board). pop eng (push eng board m) = board"
      by (simp add: pop_undoes_push_def)
    show ?thesis
    proof (cases maximizing)
      case True
      from max_loop_root [OF rec refl undo', of NegInf None] run Suc True False
      show ?thesis by (auto simp: Let_def dest: max_loop_move)
    next
      case mini: False
      from min_loop_root [OF rec refl undo', of PosInf None] run Suc mini False
      show ?thesis by (auto simp: Let_def dest: min_loop_move)
    qed
  qed
qed

text \<open>The two-ply game is played on a stack of moves, so undoing gives the board back.\<close>

lemma two_ply_undo: "pop_undoes_push two_ply"
  by (simp add: pop_undoes_push_def two_ply_def path_engine_def)

text \<open>
  Claim C1. For every position and every depth from zero on, \<^verbatim>\<open>minimax\<close> called with
  the window from minus infinity to plus infinity returns, as its score, the
  value of the unpruned minimax traversal of the same tree, for the maximizing
  and for the minimizing side. The move beside it may be any of the equally
  scored best moves, and only one of those: a returned move is a legal move
  whose successor has, in the unpruned traversal, exactly the score returned;
  and when the depth is not zero and the position is not over, a move is
  returned whenever the score is not the seeded infinity. The library is assumed
  to undo a legal move faithfully, and the stack to admit one frame more than
  the depth; under these the call returns, with the board as it was.
\<close>

theorem alpha_beta_equals_full_minimax:
  assumes "pop_undoes_push eng" and "0 \<le> depth" and "nat depth < fuel"
  shows "\<exists>mv. minimax eng color fuel depth NegInf PosInf maximizing board
              = Inr ((full_minimax eng color (nat depth) maximizing board, mv), board)
          \<and> (\<forall>m. mv = Some m \<longrightarrow>
                m \<in> set (legal_moves eng board)
                \<and> full_minimax eng color (nat (depth - 1)) (\<not> maximizing) (push eng board m)
                    = full_minimax eng color (nat depth) maximizing board)
          \<and> (depth \<noteq> 0 \<and> \<not> is_game_over eng board
               \<and> full_minimax eng color (nat depth) maximizing board
                    \<noteq> (if maximizing then NegInf else PosInf)
              \<longrightarrow> mv \<noteq> None)"
proof -
  have "NegInf < PosInf" by simp
  from minimax_window [OF assms this, of color maximizing board] obtain v mv where
    run: "minimax eng color fuel depth NegInf PosInf maximizing board = Inr ((v, mv), board)"
    and w: "window_agrees NegInf PosInf v (full_minimax eng color (nat depth) maximizing board)"
    by blast
  from window_full [OF w] have v: "v = full_minimax eng color (nat depth) maximizing board" .
  from minimax_root_move [OF assms run] run show ?thesis
    unfolding v by blast
qed

theorem alpha_beta_equals_full_minimax_witness:
  "pop_undoes_push two_ply \<and> (0::int) \<le> 2 \<and> nat 2 < (3::nat)
   \<and> minimax two_ply WHITE 3 2 NegInf PosInf True [] = Inr ((Fin 3, Some 0), [])
   \<and> full_minimax two_ply WHITE (nat 2) True [] = Fin 3
   \<and> 0 \<in> set (legal_moves two_ply [])
   \<and> full_minimax two_ply WHITE (nat (2 - 1)) (\<not> True) (push two_ply [] 0) = Fin 3"
proof -
  have d: "(0::int) \<le> 2" and f: "nat 2 < (3::nat)" by simp_all
  have run: "minimax two_ply WHITE 3 2 NegInf PosInf True [] = Inr ((Fin 3, Some 0), [])"
    by code_simp
  from alpha_beta_equals_full_minimax [OF two_ply_undo d f, of WHITE True "[]"] run
  have "full_minimax two_ply WHITE (nat 2) True [] = Fin 3
        \<and> 0 \<in> set (legal_moves two_ply [])
        \<and> full_minimax two_ply WHITE (nat (2 - 1)) (\<not> True) (push two_ply [] 0) = Fin 3"
    by auto
  with two_ply_undo d f run show ?thesis by simp
qed

section \<open>The board after the search\<close>

lemma max_loop_restores:
  assumes rec: "\<And>alpha beta b r b'.
            minimax eng color fuel d alpha beta False b = Inr (r, b') \<Longrightarrow> b' = b"
      and undo: "\<forall>m \<in> set ms. pop eng (push eng board m) = board"
      and run: "max_loop eng color fuel depth alpha beta be bm ms board = Inr (r, b')"
      and d: "d = depth - 1"
  shows "b' = board"
  using undo run
proof (induction ms arbitrary: alpha be bm)
  case Nil
  then show ?case by simp
next
  case (Cons x xs)
  from Cons.prems(2) obtain ev mv b1 where
    child: "minimax eng color fuel (depth - 1) alpha beta False (push eng board x) = Inr ((ev, mv), b1)"
    by (auto split: sum.splits)
  from rec [OF child [folded d]] have b1: "b1 = push eng board x" .
  with Cons.prems(1) have undone: "pop eng b1 = board" by simp
  from Cons.prems(2) child undone Cons.IH Cons.prems(1) show ?case
    by (auto simp: Let_def split: if_splits)
qed

lemma min_loop_restores:
  assumes rec: "\<And>alpha beta b r b'.
            minimax eng color fuel d alpha beta True b = Inr (r, b') \<Longrightarrow> b' = b"
      and undo: "\<forall>m \<in> set ms. pop eng (push eng board m) = board"
      and run: "min_loop eng color fuel depth alpha beta be bm ms board = Inr (r, b')"
      and d: "d = depth - 1"
  shows "b' = board"
  using undo run
proof (induction ms arbitrary: beta be bm)
  case Nil
  then show ?case by simp
next
  case (Cons x xs)
  from Cons.prems(2) obtain ev mv b1 where
    child: "minimax eng color fuel (depth - 1) alpha beta True (push eng board x) = Inr ((ev, mv), b1)"
    by (auto split: sum.splits)
  from rec [OF child [folded d]] have b1: "b1 = push eng board x" .
  with Cons.prems(1) have undone: "pop eng b1 = board" by simp
  from Cons.prems(2) child undone Cons.IH Cons.prems(1) show ?case
    by (auto simp: Let_def split: if_splits)
qed

lemma minimax_restores:
  assumes "pop_undoes_push eng"
  shows "minimax eng color fuel depth alpha beta maximizing board = Inr (r, b') \<Longrightarrow> b' = board"
proof (induction fuel arbitrary: depth alpha beta maximizing board r b')
  case 0
  then show ?case by simp
next
  case (Suc fuel)
  from assms have undo: "\<forall>m \<in> set (legal_moves eng board). pop eng (push eng board m) = board"
    by (simp add: pop_undoes_push_def)
  show ?case
  proof (cases "depth = 0 \<or> is_game_over eng board")
    case True
    with Suc.prems show ?thesis by (auto split: sum.splits)
  next
    case False
    show ?thesis
    proof (cases maximizing)
      case True
      with False Suc.prems have
        "max_loop eng color fuel depth alpha beta NegInf None (legal_moves eng board) board = Inr (r, b')"
        by (simp add: Let_def)
      from max_loop_restores [OF Suc.IH undo this refl] show ?thesis .
    next
      case mini: False
      with False Suc.prems have
        "min_loop eng color fuel depth alpha beta PosInf None (legal_moves eng board) board = Inr (r, b')"
        by (simp add: Let_def)
      from min_loop_restores [OF Suc.IH undo this refl] show ?thesis .
    qed
  qed
qed

text \<open>
  Claim C2. Whenever \<^verbatim>\<open>minimax\<close> returns, for any depth, window and side, the board
  is the one it was called with: each move pushed in a loop is popped before the
  next iteration and before the early exit on \<^verbatim>\<open>beta <= alpha\<close>. The same holds for
  \<^verbatim>\<open>get_best_move\<close> and \<^verbatim>\<open>next_move\<close>, which leave the whole bot unchanged. For a
  depth from zero on and a stack of more frames than the depth, the calls do
  return. The library is assumed to undo a legal move faithfully.
\<close>

theorem board_restored:
  assumes "pop_undoes_push eng"
  shows "(\<forall>r b'. minimax eng color fuel depth alpha beta maximizing board = Inr (r, b')
            \<longrightarrow> b' = board)
       \<and> (\<forall>r self'. get_best_move eng fuel self = Inr (r, self') \<longrightarrow> self' = self)
       \<and> (\<forall>s self'. next_move eng fuel self = Inr (s, self') \<longrightarrow> self' = self)
       \<and> (0 \<le> depth \<and> nat depth < fuel \<and> alpha < beta
            \<longrightarrow> (\<exists>r. minimax eng color fuel depth alpha beta maximizing board = Inr (r, board)))
       \<and> (0 \<le> self_depth self \<and> nat (self_depth self) < fuel
            \<longrightarrow> (\<exists>r. get_best_move eng fuel self = Inr (r, self))
              \<and> (\<exists>s. next_move eng fuel self = Inr (s, self)))"
proof (intro conjI allI impI)
  fix r b'
  assume "minimax eng color fuel depth alpha beta maximizing board = Inr (r, b')"
  from minimax_restores [OF assms this] show "b' = board" .
next
  fix r self'
  assume "get_best_move eng fuel self = Inr (r, self')"
  then show "self' = self"
    by (auto simp: get_best_move_def split: sum.splits dest!: minimax_restores [OF assms])
next
  fix s self'
  assume "next_move eng fuel self = Inr (s, self')"
  then show "self' = self"
    by (auto simp: next_move_def split: sum.splits dest!: minimax_restores [OF assms])
next
  assume "0 \<le> depth \<and> nat depth < fuel \<and> alpha < beta"
  then have "0 \<le> depth" "nat depth < fuel" "alpha < beta" by simp_all
  from minimax_window [OF assms this, of color maximizing board]
  show "\<exists>r. minimax eng color fuel depth alpha beta maximizing board = Inr (r, board)"
    by blast
next
  assume "0 \<le> self_depth self \<and> nat (self_depth self) < fuel"
  then have d: "0 \<le> self_depth self" "nat (self_depth self) < fuel" by simp_all
  have "NegInf < PosInf" by simp
  from minimax_window [OF assms d this, of "self_color self" True "self_board self"]
  obtain v mv where
    run: "minimax eng (self_color self) fuel (self_depth self) NegInf PosInf True (self_board self)
            = Inr ((v, mv), self_board self)"
    by blast
  from run show "\<exists>r. get_best_move eng fuel self = Inr (r, self)"
    by (simp add: get_best_move_def)
  from run show "\<exists>s. next_move eng fuel self = Inr (s, self)"
    by (simp add: next_move_def)
qed

theorem board_restored_witness:
  "pop_undoes_push two_ply
   \<and> ((0::int) \<le> 2 \<and> nat 2 < (4::nat) \<and> NegInf < PosInf)
   \<and> (\<exists>r. minimax two_ply WHITE 4 2 NegInf PosInf True [] = Inr (r, []))
   \<and> (0 \<le> self_depth (init_bot WHITE ([] :: nat list))
        \<and> nat (self_depth (init_bot WHITE ([] :: nat list))) < (4::nat))
   \<and> (\<exists>r. get_best_move two_ply 4 (init_bot WHITE []) = Inr (r, init_bot WHITE []))
   \<and> (\<exists>s. next_move two_ply 4 (init_bot WHITE []) = Inr (s, init_bot WHITE []))"
proof -
  have pre: "(0::int) \<le> 2 \<and> nat 2 < (4::nat) \<and> NegInf < PosInf"
    by simp
  have pre': "0 \<le> self_depth (init_bot WHITE ([] :: nat list))
        \<and> nat (self_depth (init_bot WHITE ([] :: nat list))) < (4::nat)"
    by (simp add: init_bot_def)
  from board_restored [OF two_ply_undo, where color = WHITE and fuel = 4 and depth = 2
         and alpha = NegInf and beta = PosInf and maximizing = True and board = "[]"
         and self = "init_bot WHITE []"]
       two_ply_undo pre pre'
  show ?thesis by blast
qed

section \<open>The move that is returned\<close>

text \<open>
  Claim C10. A move that \<^verbatim>\<open>minimax\<close> returns is one of the legal moves of the board
  it was called with: \<^verbatim>\<open>best_move\<close> starts as \<^verbatim>\<open>None\<close> and is only ever set to the
  loop variable.
\<close>

theorem minimax_move_is_legal:
  assumes "minimax eng color fuel depth alpha beta maximizing board = Inr ((v, Some m), board')"
  shows "m \<in> set (legal_moves eng board)"
proof (cases fuel)
  case 0
  with assms show ?thesis by simp
next
  case (Suc f)
  show ?thesis
  proof (cases "depth = 0 \<or> is_game_over eng board")
    case True
    with assms Suc show ?thesis
      by (auto split: sum.splits)
  next
    case False
    with assms Suc show ?thesis
      by (auto simp: Let_def split: if_splits dest: max_loop_move min_loop_move)
  qed
qed

theorem minimax_move_is_legal_witness:
  "minimax two_ply WHITE 3 2 NegInf PosInf True [] = Inr ((Fin 3, Some 0), [])
   \<and> 0 \<in> set (legal_moves two_ply [])"
proof -
  have run: "minimax two_ply WHITE 3 2 NegInf PosInf True [] = Inr ((Fin 3, Some 0), [])"
    by code_simp
  from minimax_move_is_legal [OF run] run show ?thesis by simp
qed

section \<open>The infinite sentinels\<close>

lemma fin_max: "be \<noteq> PosInf \<Longrightarrow> \<exists>y. max be (Fin x) = Fin y"
  by (cases be) (auto simp: max_def)

lemma fin_min: "be \<noteq> NegInf \<Longrightarrow> \<exists>y. min be (Fin x) = Fin y"
  by (cases be) (auto simp: min_def)

lemma max_loop_finite:
  assumes rec: "\<And>a b board'. \<exists>x mv b'.
            minimax eng color fuel d a b False board' = Inr ((Fin x, mv), b')"
      and d: "d = depth - 1"
      and be: "be \<noteq> PosInf" "ms \<noteq> [] \<or> be \<noteq> NegInf"
  shows "\<exists>x mv b'. max_loop eng color fuel depth alpha beta be bm ms board = Inr ((Fin x, mv), b')"
  using be
proof (induction ms arbitrary: alpha be bm board)
  case Nil
  then show ?case by (cases be) simp_all
next
  case (Cons m ms)
  from rec [of alpha beta "push eng board m"] obtain x mv b1 where
    child: "minimax eng color fuel (depth - 1) alpha beta False (push eng board m)
              = Inr ((Fin x, mv), b1)"
    unfolding d by blast
  from fin_max [OF Cons.prems(1)] obtain y where y: "max be (Fin x) = Fin y" by blast
  have "Fin y \<noteq> PosInf" "ms \<noteq> [] \<or> Fin y \<noteq> NegInf" by simp_all
  from Cons.IH [OF this] max_loop_Cons_eq [OF child, of be bm ms] y show ?case
    by (cases "beta \<le> max alpha (Fin y)") simp_all
qed

lemma min_loop_finite:
  assumes rec: "\<And>a b board'. \<exists>x mv b'.
            minimax eng color fuel d a b True board' = Inr ((Fin x, mv), b')"
      and d: "d = depth - 1"
      and be: "be \<noteq> NegInf" "ms \<noteq> [] \<or> be \<noteq> PosInf"
  shows "\<exists>x mv b'. min_loop eng color fuel depth alpha beta be bm ms board = Inr ((Fin x, mv), b')"
  using be
proof (induction ms arbitrary: beta be bm board)
  case Nil
  then show ?case by (cases be) simp_all
next
  case (Cons m ms)
  from rec [of alpha beta "push eng board m"] obtain x mv b1 where
    child: "minimax eng color fuel (depth - 1) alpha beta True (push eng board m)
              = Inr ((Fin x, mv), b1)"
    unfolding d by blast
  from fin_min [OF Cons.prems(1)] obtain y where y: "min be (Fin x) = Fin y" by blast
  have "Fin y \<noteq> NegInf" "ms \<noteq> [] \<or> Fin y \<noteq> PosInf" by simp_all
  from Cons.IH [OF this] min_loop_Cons_eq [OF child, of be bm ms] y show ?case
    by (cases "min beta (Fin y) \<le> alpha") simp_all
qed

lemma minimax_finite:
  assumes "no_move_is_over eng"
  shows "0 \<le> depth \<Longrightarrow> nat depth < fuel \<Longrightarrow>
         \<exists>x mv b'. minimax eng color fuel depth alpha beta maximizing board = Inr ((Fin x, mv), b')"
proof (induction fuel arbitrary: depth alpha beta maximizing board)
  case 0
  then show ?case by simp
next
  case (Suc fuel)
  show ?case
  proof (cases "depth = 0 \<or> is_game_over eng board")
    case True
    then show ?thesis by (auto simp: evaluate_board_Inr)
  next
    case False
    with assms have moves: "legal_moves eng board \<noteq> []"
      by (auto simp: no_move_is_over_def)
    from False Suc.prems have d1: "0 \<le> depth - 1" "nat (depth - 1) < fuel" by auto
    have rec: "\<exists>x mv b'. minimax eng color fuel (depth - 1) a b mx board' = Inr ((Fin x, mv), b')"
      for a b mx board'
      using Suc.IH [OF d1] .
    show ?thesis
    proof (cases maximizing)
      case True
      from max_loop_finite [OF rec refl, of NegInf "legal_moves eng board"] moves True False
      show ?thesis by (simp add: Let_def)
    next
      case mini: False
      from min_loop_finite [OF rec refl, of PosInf "legal_moves eng board"] moves mini False
      show ?thesis by (simp add: Let_def)
    qed
  qed
qed

text \<open>
  The sentinel can come back from a position that has a legal move: in the game
  \<open>dead_end\<close> the root is not over and has one legal move, the position behind it
  is not over and has none, and the search of depth two returns plus infinity
  with that move.
\<close>

theorem sentinel_without_moves_counterexample:
  "\<not> is_game_over dead_end [] \<and> legal_moves dead_end [] = [0]
   \<and> minimax dead_end WHITE 3 2 NegInf PosInf True [] = Inr ((PosInf, Some 0), [])"
  by code_simp

text \<open>
  Claim C8, amended. On a position that is not over and has no legal move,
  \<^verbatim>\<open>minimax\<close> with a depth other than zero returns the seeded sentinel (minus
  infinity when maximizing, plus infinity when minimizing) with no move. And
  when the library reports every position without a legal move as over, as the
  rules of chess do, \<^verbatim>\<open>minimax\<close> with a depth from zero on returns a finite
  evaluation, whatever the window.
\<close>

theorem sentinel_only_without_moves:
  "(\<not> is_game_over eng board \<and> depth \<noteq> 0 \<and> legal_moves eng board = []
      \<longrightarrow> minimax eng color (Suc fuel) depth alpha beta maximizing board
            = Inr ((if maximizing then NegInf else PosInf, None), board))
   \<and> (no_move_is_over eng' \<and> 0 \<le> depth' \<and> nat depth' < fuel'
      \<longrightarrow> (\<exists>x mv b'. minimax eng' color' fuel' depth' alpha' beta' maximizing' board'
                       = Inr ((Fin x, mv), b')))"
proof (intro conjI impI)
  assume "\<not> is_game_over eng board \<and> depth \<noteq> 0 \<and> legal_moves eng board = []"
  then show "minimax eng color (Suc fuel) depth alpha beta maximizing board
               = Inr ((if maximizing then NegInf else PosInf, None), board)"
    by (simp add: Let_def)
next
  assume "no_move_is_over eng' \<and> 0 \<le> depth' \<and> nat depth' < fuel'"
  then have "no_move_is_over eng'" "0 \<le> depth'" "nat depth' < fuel'" by simp_all
  from minimax_finite [OF this]
  show "\<exists>x mv b'. minimax eng' color' fuel' depth' alpha' beta' maximizing' board'
                   = Inr ((Fin x, mv), b')" .
qed

lemma two_ply_no_move_is_over: "no_move_is_over two_ply"
  by (auto simp: no_move_is_over_def two_ply_def path_engine_def two_ply_moves_def
      two_ply_node_def pawns_def)

theorem sentinel_only_without_moves_witness:
  "(\<not> is_game_over dead_end [0] \<and> (1::int) \<noteq> 0 \<and> legal_moves dead_end [0] = [])
   \<and> minimax dead_end WHITE (Suc 0) 1 NegInf PosInf False [0] = Inr ((PosInf, None), [0])
   \<and> (no_move_is_over two_ply \<and> (0::int) \<le> 2 \<and> nat 2 < (3::nat))
   \<and> (\<exists>x mv b'. minimax two_ply WHITE 3 2 NegInf PosInf True [] = Inr ((Fin x, mv), b'))"
proof -
  have stuck: "\<not> is_game_over dead_end [0] \<and> (1::int) \<noteq> 0 \<and> legal_moves dead_end [0] = []"
    by code_simp
  have ok: "no_move_is_over two_ply \<and> (0::int) \<le> 2 \<and> nat 2 < (3::nat)"
    using two_ply_no_move_is_over by simp
  from sentinel_only_without_moves
         [of dead_end "[0]" 1 WHITE 0 NegInf PosInf False two_ply 2 3 WHITE NegInf PosInf True "[]"]
       stuck ok
  show ?thesis by simp
qed

section \<open>A negative depth\<close>

lemma max_loop_depth_cong:
  assumes "\<And>a b board'. minimax eng color fuel (depth - 1) a b False board'
                         = minimax eng color fuel (depth' - 1) a b False board'"
  shows "max_loop eng color fuel depth alpha beta be bm ms board
           = max_loop eng color fuel depth' alpha beta be bm ms board"
proof (induction ms arbitrary: alpha be bm board)
  case Nil
  show ?case by simp
next
  case (Cons m ms)
  show ?case
    by (simp add: assms Cons.IH Let_def split: sum.splits prod.splits)
qed

lemma min_loop_depth_cong:
  assumes "\<And>a b board'. minimax eng color fuel (depth - 1) a b True board'
                         = minimax eng color fuel (depth' - 1) a b True board'"
  shows "min_loop eng color fuel depth alpha beta be bm ms board
           = min_loop eng color fuel depth' alpha beta be bm ms board"
proof (induction ms arbitrary: beta be bm board)
  case Nil
  show ?case by simp
next
  case (Cons m ms)
  show ?case
    by (simp add: assms Cons.IH Let_def split: sum.splits prod.splits)
qed

lemma minimax_negative_depth:
  "depth < 0 \<Longrightarrow> depth' < 0 \<Longrightarrow>
   minimax eng color fuel depth alpha beta maximizing board
     = minimax eng color fuel depth' alpha beta maximizing board"
proof (induction fuel arbitrary: depth depth' alpha beta maximizing board)
  case 0
  show ?case by simp
next
  case (Suc fuel)
  from Suc.prems have neg: "depth - 1 < 0" "depth' - 1 < 0" by simp_all
  have rec: "minimax eng color fuel (depth - 1) a b mx board'
               = minimax eng color fuel (depth' - 1) a b mx board'" for a b mx board'
    using Suc.IH [OF neg] .
  from Suc.prems have nz: "depth \<noteq> 0" "depth' \<noteq> 0" by simp_all
  show ?case
    using max_loop_depth_cong [of eng color fuel depth depth', OF rec]
          min_loop_depth_cong [of eng color fuel depth depth', OF rec]
    by (simp add: nz Let_def)
qed

lemma max_loop_error:
  assumes "\<And>a b board' e. minimax eng color fuel d a b False board' = Inl e \<Longrightarrow> e = RecursionError"
      and "d = depth - 1"
  shows "max_loop eng color fuel depth alpha beta be bm ms board = Inl e \<Longrightarrow> e = RecursionError"
proof (induction ms arbitrary: alpha be bm board)
  case Nil
  then show ?case by simp
next
  case (Cons m ms)
  then show ?case
    using assms by (auto simp: Let_def split: sum.splits prod.splits if_splits)
qed

lemma min_loop_error:
  assumes "\<And>a b board' e. minimax eng color fuel d a b True board' = Inl e \<Longrightarrow> e = RecursionError"
      and "d = depth - 1"
  shows "min_loop eng color fuel depth alpha beta be bm ms board = Inl e \<Longrightarrow> e = RecursionError"
proof (induction ms arbitrary: beta be bm board)
  case Nil
  then show ?case by simp
next
  case (Cons m ms)
  then show ?case
    using assms by (auto simp: Let_def split: sum.splits prod.splits if_splits)
qed

lemma minimax_error:
  "minimax eng color fuel depth alpha beta maximizing board = Inl e \<Longrightarrow> e = RecursionError"
proof (induction fuel arbitrary: depth alpha beta maximizing board e)
  case 0
  then show ?case by simp
next
  case (Suc fuel)
  show ?case
  proof (cases "depth = 0 \<or> is_game_over eng board")
    case True
    with Suc.prems show ?thesis by (auto simp: evaluate_board_Inr)
  next
    case False
    with Suc.prems show ?thesis
      using max_loop_error [OF Suc.IH refl] min_loop_error [OF Suc.IH refl]
      by (auto simp: Let_def split: if_splits)
  qed
qed

text \<open>A search with depth \<open>-1\<close> is carried out like any other: on the two-ply game
  it returns the score 3 and the first move.\<close>

theorem negative_depth_counterexample:
  "minimax two_ply WHITE 3 (- 1) NegInf PosInf True [] = Inr ((Fin 3, Some 0), [])"
  by code_simp

text \<open>
  Claim C6, amended. A negative depth is not rejected. \<^verbatim>\<open>minimax\<close> has no check of
  the depth other than \<^verbatim>\<open>depth == 0\<close>, so with a negative depth the depth limit
  never applies: on a position that is not over the call enters the loop over
  the legal moves as for a positive depth, every negative depth gives the same
  result, and the only exception that can end the search is the interpreter's
  \<^verbatim>\<open>RecursionError\<close>.
\<close>

theorem negative_depth_not_rejected:
  assumes "depth < 0"
  shows "(\<forall>depth' < 0. minimax eng color fuel depth alpha beta maximizing board
                         = minimax eng color fuel depth' alpha beta maximizing board)
       \<and> (\<forall>e. minimax eng color fuel depth alpha beta maximizing board = Inl e
               \<longrightarrow> e = RecursionError)
       \<and> (\<not> is_game_over eng board \<longrightarrow>
            minimax eng color (Suc fuel) depth alpha beta maximizing board
              = (if maximizing
                 then max_loop eng color fuel depth alpha beta NegInf None
                        (legal_moves eng board) board
                 else min_loop eng color fuel depth alpha beta PosInf None
                        (legal_moves eng board) board))"
  using assms minimax_negative_depth [OF assms] minimax_error
  by (auto simp: Let_def)

theorem negative_depth_not_rejected_witness:
  "(- 1 :: int) < 0
   \<and> minimax two_ply WHITE 3 (- 1) NegInf PosInf True []
       = minimax two_ply WHITE 3 (- 7) NegInf PosInf True []
   \<and> minimax two_ply WHITE 2 (- 1) NegInf PosInf True [] = Inl RecursionError
   \<and> \<not> is_game_over two_ply []
   \<and> minimax two_ply WHITE (Suc 2) (- 1) NegInf PosInf True []
       = max_loop two_ply WHITE 2 (- 1) NegInf PosInf NegInf None (legal_moves two_ply []) []"
proof -
  have neg: "(- 1 :: int) < 0" by simp
  have open_game: "\<not> is_game_over two_ply []" by code_simp
  have short: "minimax two_ply WHITE 2 (- 1) NegInf PosInf True [] = Inl RecursionError"
    by code_simp
  from negative_depth_not_rejected [OF neg, of two_ply WHITE 3 NegInf PosInf True "[]"]
  have same: "minimax two_ply WHITE 3 (- 1) NegInf PosInf True []
                = minimax two_ply WHITE 3 (- 7) NegInf PosInf True []"
    by simp
  from negative_depth_not_rejected [OF neg, of two_ply WHITE 2 NegInf PosInf True "[]"] open_game
  have unfold: "minimax two_ply WHITE (Suc 2) (- 1) NegInf PosInf True []
       = max_loop two_ply WHITE 2 (- 1) NegInf PosInf NegInf None (legal_moves two_ply []) []"
    by simp
  from neg same short open_game unfold show ?thesis by simp
qed

section \<open>What \<^verbatim>\<open>get_best_move\<close> returns\<close>

text \<open>
  Claim C7. \<^verbatim>\<open>get_best_move\<close> is to return the best move or \<^verbatim>\<open>None\<close>. It returns what
  \<^verbatim>\<open>minimax\<close> returned, which is the pair of the score and the move: on the
  two-ply game the result is the pair of 3 and the first move. \<^verbatim>\<open>next_move\<close>
  unpacks the same pair and uses the move alone.
\<close>

theorem get_best_move_returns_pair:
  "get_best_move two_ply 4 (init_bot WHITE []) = Inr ((Fin 3, Some 0), init_bot WHITE [])"
  by code_simp

section \<open>The king-safety terms and the material term\<close>

text \<open>
  With kings and rooks on their home squares, White to evaluate: when Black
  holds both castling rights the evaluation is 4; when Black has lost the
  kingside right, the penalty term is \<open>-2\<close> and the evaluation is 6, not 2.
\<close>

theorem king_safety_penalty_counterexample:
  "evaluate_board (static (castle_position [WHITE, BLACK])) WHITE [] = Inr 4
   \<and> king (static (castle_position [WHITE])) [] BLACK = Some E8
   \<and> \<not> has_kingside_castling_rights (static (castle_position [WHITE])) [] BLACK
   \<and> get_king_safety_penalty (static (castle_position [WHITE])) WHITE [] (Some E8) = - 2
   \<and> evaluate_board (static (castle_position [WHITE])) WHITE [] = Inr 6
   \<and> evaluate_board (static (castle_position [WHITE])) WHITE [] \<noteq> Inr (4 - 2)"
  by code_simp

text \<open>
  Claim C3, amended. For White's perspective and every position with both kings:
  the king-safety-penalty term is \<open>-2\<close> when Black has lost the kingside right
  and Black's king is on e8, and \<open>-2\<close> more when Black has lost the queenside
  right with the king on e8; \<^verbatim>\<open>evaluate_board\<close> subtracts this term, so the total
  is the sum of the other terms raised by 2 for each of the two conditions.
\<close>

theorem king_safety_penalty_raises_total:
  assumes "king eng board WHITE = Some my_king" and "king eng board BLACK = Some opp_king"
  shows "get_king_safety_penalty eng WHITE board (Some opp_king)
           = (if \<not> has_kingside_castling_rights eng board BLACK \<and> opp_king = E8 then - 2 else 0)
             + (if \<not> has_queenside_castling_rights eng board BLACK \<and> opp_king = E8 then - 2 else 0)
       \<and> (\<exists>threat. get_checkmate_threat_bonus eng WHITE board = Inr threat
            \<and> evaluate_board eng WHITE board
                = Inr (material_loop eng WHITE board 0 SQUARES
                       + get_king_safety_bonus eng WHITE board (Some my_king)
                       + threat
                       + get_attack_against_king_bonus eng WHITE board
                       + get_protect_key_pieces_bonus eng WHITE board
                       + (if \<not> has_kingside_castling_rights eng board BLACK \<and> opp_king = E8
                          then 2 else 0)
                       + (if \<not> has_queenside_castling_rights eng board BLACK \<and> opp_king = E8
                          then 2 else 0)))"
proof -
  have opp: "(\<not> WHITE) = BLACK" by (simp add: WHITE_def BLACK_def)
  have pen: "get_king_safety_penalty eng WHITE board (Some opp_king)
           = (if \<not> has_kingside_castling_rights eng board BLACK \<and> opp_king = E8 then - 2 else 0)
             + (if \<not> has_queenside_castling_rights eng board BLACK \<and> opp_king = E8 then - 2 else 0)"
    by (simp add: get_king_safety_penalty_def opp)
  from assms(2) obtain threat where
    threat: "get_checkmate_threat_bonus eng WHITE board = Inr threat"
    by (simp add: get_checkmate_threat_bonus_def opp Let_def)
  from assms threat have "evaluate_board eng WHITE board
          = Inr (material_loop eng WHITE board 0 SQUARES
                 + get_king_safety_bonus eng WHITE board (Some my_king)
                 + threat
                 + get_attack_against_king_bonus eng WHITE board
                 - get_king_safety_penalty eng WHITE board (Some opp_king)
                 + get_protect_key_pieces_bonus eng WHITE board)"
    by (simp add: evaluate_board_def opp Let_def)
  with pen threat show ?thesis by simp
qed

theorem king_safety_penalty_raises_total_witness:
  "king (static (castle_position [WHITE])) [] WHITE = Some E1
   \<and> king (static (castle_position [WHITE])) [] BLACK = Some E8
   \<and> get_king_safety_penalty (static (castle_position [WHITE])) WHITE [] (Some E8) = - 2
   \<and> evaluate_board (static (castle_position [WHITE])) WHITE [] = Inr (0 + 4 + 0 + 0 + 0 + 2 + 0)"
proof -
  let ?E = "static (castle_position [WHITE])"
  have k1: "king ?E [] WHITE = Some E1" by code_simp
  have k2: "king ?E [] BLACK = Some E8" by code_simp
  have vals: "material_loop ?E WHITE [] 0 SQUARES = 0"
    "get_king_safety_bonus ?E WHITE [] (Some E1) = 4"
    "get_checkmate_threat_bonus ?E WHITE [] = Inr 0"
    "get_attack_against_king_bonus ?E WHITE [] = 0"
    "get_protect_key_pieces_bonus ?E WHITE [] = 0"
    "\<not> has_kingside_castling_rights ?E [] BLACK"
    "has_queenside_castling_rights ?E [] BLACK"
    by code_simp+
  from king_safety_penalty_raises_total [OF k1 k2] k1 k2 vals show ?thesis by simp
qed

text \<open>
  Claim C4. The own-king bonus is to apply on the own home square, e8 for Black.
  \<^verbatim>\<open>get_king_safety_bonus\<close> compares the king's square with \<^verbatim>\<open>chess.E1\<close> for either
  colour: for Black's perspective, with Black's king on e8 and both of Black's
  castling rights held, the bonus is 0, where the claim has 4.
\<close>

theorem king_safety_bonus_black_home:
  "has_kingside_castling_rights (static (castle_position [WHITE, BLACK])) [] BLACK
   \<and> has_queenside_castling_rights (static (castle_position [WHITE, BLACK])) [] BLACK
   \<and> king (static (castle_position [WHITE, BLACK])) [] BLACK = Some E8
   \<and> get_king_safety_bonus (static (castle_position [WHITE, BLACK])) BLACK []
        (king (static (castle_position [WHITE, BLACK])) [] BLACK) = 0"
  by code_simp

text \<open>
  Claim C9. The material loop from White's perspective is to be the negation of
  the loop from Black's perspective. With kings on e1 and e8 and a white pawn on
  e4 the loop gives \<open>3/2\<close> for White and \<open>-1/2\<close> for Black: the half point for a
  central square is taken off the value of an opponent's piece, and that value
  is then subtracted, so the half point is added for both perspectives.
\<close>

theorem material_not_negated:
  "material_loop (static pawn_e4_position) WHITE [] 0 SQUARES = 3 / 2
   \<and> material_loop (static pawn_e4_position) BLACK [] 0 SQUARES = - (1 / 2)
   \<and> material_loop (static pawn_e4_position) WHITE [] 0 SQUARES
       \<noteq> - material_loop (static pawn_e4_position) BLACK [] 0 SQUARES"
  by code_simp

end
